theory Spec2Isabelle
  imports Main "HOL-Library.Sublist" "HOL-Library.Monad_Syntax"
begin

section \<open>Python strings and the string methods the program calls\<close>

text \<open>
  A Python \<open>str\<close> is modelled as a \<open>string\<close>, one \<open>char\<close> per code point, for documents
  whose code points lie below 256. On that range the Unicode decimal digits (regex \<open>\d\<close>,
  \<open>int()\<close>) are \<open>0\<close> .. \<open>9\<close> and the Unicode white space (regex \<open>\s\<close>, \<open>str.strip()\<close>) is
  the set listed in \<open>is_space\<close>; \<open>int()\<close> strips a smaller set, \<open>is_int_space\<close> below. The
  text of a subtitle is never inspected by the program beyond splitting it at line feeds,
  so nothing below depends on its alphabet.
\<close>

datatype py_error = ValueError | ReadError

definition is_digit :: "char \<Rightarrow> bool" where
  "is_digit c = (c \<in> set ''0123456789'')"

definition is_space :: "char \<Rightarrow> bool" where
  "is_space c = (c \<in> set [CHR 0x09, CHR 0x0A, CHR 0x0B, CHR 0x0C, CHR 0x0D, CHR 0x1C,
                             CHR 0x1D, CHR 0x1E, CHR 0x1F, CHR 0x20, CHR 0x85, CHR 0xA0])"

text \<open>\<open>s.strip()\<close>: white space removed at both ends.\<close>

definition strip :: "string \<Rightarrow> string" where
  "strip s = rev (dropWhile is_space (rev (dropWhile is_space s)))"

text \<open>
  \<open>s.split(sep)\<close>: the pieces between the leftmost, non-overlapping occurrences of \<open>sep\<close>.
  Python raises on an empty separator; the program only passes the literals
  \<open>'\n\n'\<close>, \<open>'\n'\<close>, \<open>':'\<close> and \<open>','\<close>, so the guard \<open>sep \<noteq> []\<close> is there for totality only.
\<close>

function split_str :: "string \<Rightarrow> string \<Rightarrow> string list" where
  "split_str sep [] = [[]]"
| "split_str sep (c # cs) =
     (if sep \<noteq> [] \<and> prefix sep (c # cs)
      then [] # split_str sep (drop (length sep) (c # cs))
      else (case split_str sep cs of
              [] \<Rightarrow> [[c]]
            | p # ps \<Rightarrow> (c # p) # ps))"
  by pat_completeness auto
termination
  by (relation "measure (\<lambda>(sep, s). length s)") (auto simp: neq_Nil_conv)

text \<open>\<open>sep.join(xs)\<close>.\<close>

fun join :: "string \<Rightarrow> string list \<Rightarrow> string" where
  "join sep [] = []"
| "join sep [x] = x"
| "join sep (x # y # xs) = x @ sep @ join sep (y # xs)"

text \<open>\<open>s.replace(a, b)\<close> for one-character \<open>a\<close> and \<open>b\<close>.\<close>

definition replace_char :: "char \<Rightarrow> char \<Rightarrow> string \<Rightarrow> string" where
  "replace_char a b s = map (\<lambda>c. if c = a then b else c) s"

text \<open>\<open>s.ljust(n, c)\<close>.\<close>

definition ljust :: "nat \<Rightarrow> char \<Rightarrow> string \<Rightarrow> string" where
  "ljust n c s = s @ replicate (n - length s) c"

subsection \<open>\<open>int(s)\<close>\<close>

text \<open>
  \<open>int(s)\<close> in base ten: surrounding white space is dropped, one sign is allowed, and the
  digits may be grouped by single underscores. Anything else raises \<open>ValueError\<close>
  (\<open>None\<close> here). The white space \<open>int()\<close> drops is not that of \<open>str.strip()\<close>: the
  separators \<open>0x1C\<close> .. \<open>0x1F\<close> are kept, and a string that holds one does not convert.
  The interpreter's configurable limit on the number of digits (4300 by default, above
  which \<open>int()\<close> raises) is not modelled: the conversions below are those of an interpreter
  with the limit switched off, or of fields within it.
\<close>

definition is_int_space :: "char \<Rightarrow> bool" where
  "is_int_space c = (c \<in> set [CHR 0x09, CHR 0x0A, CHR 0x0B, CHR 0x0C, CHR 0x0D, CHR 0x20,
                                 CHR 0x85, CHR 0xA0])"

definition int_strip :: "string \<Rightarrow> string" where
  "int_strip s = rev (dropWhile is_int_space (rev (dropWhile is_int_space s)))"

definition digit_val :: "char \<Rightarrow> int" where
  "digit_val c = int (of_char c) - 48"

definition digits_val :: "string \<Rightarrow> int" where
  "digits_val s = foldl (\<lambda>acc c. 10 * acc + digit_val c) 0 s"

fun int_body_ok :: "string \<Rightarrow> bool" where
  "int_body_ok [] = False"
| "int_body_ok [c] = is_digit c"
| "int_body_ok (c # d # cs) =
     (is_digit c \<and> (if d = CHR ''_'' then int_body_ok cs else int_body_ok (d # cs)))"

definition py_int :: "string \<Rightarrow> int option" where
  "py_int s =
     (let t = int_strip s;
          (sign, body) = (case t of
                            [] \<Rightarrow> (1, [])
                          | c # r \<Rightarrow> if c = CHR ''-'' then (- 1, r)
                                     else if c = CHR ''+'' then (1, r)
                                     else (1, t))
      in if int_body_ok body then Some (sign * digits_val (filter is_digit body)) else None)"

section \<open>\<open>time_to_ms\<close>\<close>

text \<open>
  \<^verbatim>\<open>h, m, s = time_str.split(':')\<close> and \<^verbatim>\<open>s, ms = s.split(',')\<close> raise \<open>ValueError\<close> unless
  the split yields exactly three, respectively two, pieces; so does each \<open>int()\<close>.
\<close>

definition time_to_ms :: "string \<Rightarrow> py_error + int" where
  "time_to_ms time_str =
     (case split_str '':'' time_str of
        [h, m, s] \<Rightarrow>
          (case split_str '','' s of
             [s', ms] \<Rightarrow>
               (case (py_int h, py_int m, py_int s', py_int ms) of
                  (Some hv, Some mv, Some sv, Some msv) \<Rightarrow>
                    Inr (hv * 3600000 + mv * 60000 + sv * 1000 + msv)
                | _ \<Rightarrow> Inl ValueError)
           | _ \<Rightarrow> Inl ValueError)
      | _ \<Rightarrow> Inl ValueError)"

section \<open>\<open>parse_srt\<close>\<close>

type_synonym entry = "string \<times> string"

subsection \<open>The compiled pattern\<close>

text \<open>
  \<^verbatim>\<open>(\d+:\d+:\d+)[,.](\d+)\s*-->\s*(\d+:\d+:\d+)[,.](\d+)\<close>, applied with \<open>match\<close>: anchored at
  the start of the line only. Every repetition is followed by a character outside its own
  class (or ends the pattern), so the greedy left-to-right reading below is the one match
  the backtracking engine finds. The result holds groups 1 to 4.
\<close>

definition digits1 :: "string \<Rightarrow> (string \<times> string) option" where
  "digits1 s = (case takeWhile is_digit s of
                  [] \<Rightarrow> None
                | d # ds \<Rightarrow> Some (d # ds, dropWhile is_digit s))"

definition lit :: "string \<Rightarrow> string \<Rightarrow> string option" where
  "lit p s = (if prefix p s then Some (drop (length p) s) else None)"

definition comma_or_dot :: "string \<Rightarrow> string option" where
  "comma_or_dot s = (case s of
                       [] \<Rightarrow> None
                     | c # r \<Rightarrow> if c = CHR '','' \<or> c = CHR ''.'' then Some r else None)"

definition spaces :: "string \<Rightarrow> string" where
  "spaces s = dropWhile is_space s"

definition hms :: "string \<Rightarrow> (string \<times> string) option" where
  "hms s = do {
     (h, r1) \<leftarrow> digits1 s;
     r2 \<leftarrow> lit '':'' r1;
     (m, r3) \<leftarrow> digits1 r2;
     r4 \<leftarrow> lit '':'' r3;
     (sec, r5) \<leftarrow> digits1 r4;
     Some (h @ '':'' @ m @ '':'' @ sec, r5)
   }"

definition timecode_pattern :: "string \<Rightarrow> (string \<times> string \<times> string \<times> string) option" where
  "timecode_pattern line = do {
     (g1, r1) \<leftarrow> hms line;
     r2 \<leftarrow> comma_or_dot r1;
     (g2, r3) \<leftarrow> digits1 r2;
     r4 \<leftarrow> lit ''-->'' (spaces r3);
     (g3, r5) \<leftarrow> hms (spaces r4);
     r6 \<leftarrow> comma_or_dot r5;
     (g4, r7) \<leftarrow> digits1 r6;
     Some (g1, g2, g3, g4)
   }"

subsection \<open>The loop over the blocks\<close>

definition block_entries :: "string \<Rightarrow> entry list" where
  "block_entries block =
     (let lines = split_str ''\<newline>'' block in
      if length lines \<ge> 3 then
        (case timecode_pattern (lines ! 1) of
           Some (g1, g2, g3, g4) \<Rightarrow>
             [(g1 @ '','' @ take 3 (ljust 3 (CHR ''0'') g2),
               replace_char (CHR ''\<newline>'') (CHR '' '') (join '' '' (drop 2 lines)))]
         | None \<Rightarrow> [])
      else [])"

fun parse_blocks :: "string list \<Rightarrow> entry list \<Rightarrow> entry list" where
  "parse_blocks [] entries = entries"
| "parse_blocks (block # blocks) entries = parse_blocks blocks (entries @ block_entries block)"

text \<open>
  The argument is what opening and reading the file gives: the decoded text, or the
  exception. Any exception inside the \<open>try\<close> makes the function return Python's \<open>None\<close>;
  once the text is read, no statement of the body can raise.
\<close>

definition parse_srt :: "py_error + string \<Rightarrow> entry list option" where
  "parse_srt file =
     (case file of
        Inl e \<Rightarrow> None
      | Inr text \<Rightarrow>
          (let content = strip text;
               blocks = split_str ''\<newline>\<newline>'' content
           in Some (parse_blocks blocks [])))"

section \<open>\<open>align_subtitles\<close>\<close>

type_synonym row = "string \<times> string \<times> string"

record align_state =
  aligned :: "row list"
  ko_ptr :: nat
  ja_ptr :: nat

text \<open>One iteration of the first \<open>while\<close>; both cursors are in bounds when it runs.\<close>

definition loop_body :: "entry list \<Rightarrow> entry list \<Rightarrow> int \<Rightarrow> align_state \<Rightarrow> py_error + align_state" where
  "loop_body ko_entries ja_entries threshold st =
     (case time_to_ms (fst (ko_entries ! ko_ptr st)) of
        Inl e \<Rightarrow> Inl e
      | Inr ko_time \<Rightarrow>
          (case time_to_ms (fst (ja_entries ! ja_ptr st)) of
             Inl e \<Rightarrow> Inl e
           | Inr ja_time \<Rightarrow>
               if \<bar>ko_time - ja_time\<bar> \<le> threshold then
                 Inr \<lparr>aligned = aligned st @
                        [(fst (ko_entries ! ko_ptr st),
                          snd (ko_entries ! ko_ptr st),
                          snd (ja_entries ! ja_ptr st))],
                      ko_ptr = ko_ptr st + 1,
                      ja_ptr = ja_ptr st + 1\<rparr>
               else if ko_time < ja_time then
                 Inr \<lparr>aligned = aligned st @
                        [(fst (ko_entries ! ko_ptr st), snd (ko_entries ! ko_ptr st), '''')],
                      ko_ptr = ko_ptr st + 1,
                      ja_ptr = ja_ptr st\<rparr>
               else
                 Inr \<lparr>aligned = aligned st @
                        [(fst (ja_entries ! ja_ptr st), '''', snd (ja_entries ! ja_ptr st))],
                      ko_ptr = ko_ptr st,
                      ja_ptr = ja_ptr st + 1\<rparr>))"

function main_loop :: "entry list \<Rightarrow> entry list \<Rightarrow> int \<Rightarrow> align_state \<Rightarrow> py_error + align_state" where
  "main_loop ko_entries ja_entries threshold st =
     (if ko_ptr st < length ko_entries \<and> ja_ptr st < length ja_entries then
        (case loop_body ko_entries ja_entries threshold st of
           Inl e \<Rightarrow> Inl e
         | Inr st' \<Rightarrow> main_loop ko_entries ja_entries threshold st')
      else Inr st)"
  by pat_completeness auto
termination
  by (relation "measure (\<lambda>(ko, ja, t, st). (length ko - ko_ptr st) + (length ja - ja_ptr st))")
     (auto simp: loop_body_def split: sum.splits if_splits)

declare main_loop.simps [simp del]

function drain_ko :: "entry list \<Rightarrow> align_state \<Rightarrow> align_state" where
  "drain_ko ko_entries st =
     (if ko_ptr st < length ko_entries then
        drain_ko ko_entries
          (st\<lparr>aligned := aligned st @
                 [(fst (ko_entries ! ko_ptr st), snd (ko_entries ! ko_ptr st), '''')],
              ko_ptr := ko_ptr st + 1\<rparr>)
      else st)"
  by pat_completeness auto
termination
  by (relation "measure (\<lambda>(ko, st). length ko - ko_ptr st)") auto

declare drain_ko.simps [simp del]

function drain_ja :: "entry list \<Rightarrow> align_state \<Rightarrow> align_state" where
  "drain_ja ja_entries st =
     (if ja_ptr st < length ja_entries then
        drain_ja ja_entries
          (st\<lparr>aligned := aligned st @
                 [(fst (ja_entries ! ja_ptr st), '''', snd (ja_entries ! ja_ptr st))],
              ja_ptr := ja_ptr st + 1\<rparr>)
      else st)"
  by pat_completeness auto
termination
  by (relation "measure (\<lambda>(ja, st). length ja - ja_ptr st)") auto

declare drain_ja.simps [simp del]

definition align_subtitles :: "entry list \<Rightarrow> entry list \<Rightarrow> int \<Rightarrow> py_error + row list" where
  "align_subtitles ko_entries ja_entries threshold =
     (case main_loop ko_entries ja_entries threshold \<lparr>aligned = [], ko_ptr = 0, ja_ptr = 0\<rparr> of
        Inl e \<Rightarrow> Inl e
      | Inr st \<Rightarrow> Inr (aligned (drain_ja ja_entries (drain_ko ko_entries st))))"

section \<open>Notions used to state and prove the properties\<close>

text \<open>
  A solo row of either track; whether a timestamp string converts, and the value it converts
  to; and the rows of the aligner written as a recursion over the two remaining tracks,
  which is what the three loops compute when every timestamp converts
  (\<open>align_subtitles_weave\<close> below).
\<close>

definition solo_ko :: "entry \<Rightarrow> row" where
  "solo_ko e = (fst e, snd e, '''')"

definition solo_ja :: "entry \<Rightarrow> row" where
  "solo_ja e = (fst e, '''', snd e)"

definition timestamp_ok :: "string \<Rightarrow> bool" where
  "timestamp_ok s = (case time_to_ms s of Inl e \<Rightarrow> False | Inr n \<Rightarrow> True)"

definition ms_value :: "string \<Rightarrow> int" where
  "ms_value s = (case time_to_ms s of Inl e \<Rightarrow> 0 | Inr n \<Rightarrow> n)"

definition well_timed :: "entry list \<Rightarrow> bool" where
  "well_timed es = list_all (\<lambda>e. timestamp_ok (fst e)) es"

fun weave :: "entry list \<Rightarrow> entry list \<Rightarrow> int \<Rightarrow> row list" where
  "weave [] ja t = map solo_ja ja"
| "weave (a # ko) [] t = map solo_ko (a # ko)"
| "weave (a # ko) (b # ja) t =
     (if \<bar>ms_value (fst a) - ms_value (fst b)\<bar> \<le> t then (fst a, snd a, snd b) # weave ko ja t
      else if ms_value (fst a) < ms_value (fst b) then solo_ko a # weave ko (b # ja) t
      else solo_ja b # weave (a # ko) ja t)"

text \<open>
  The two text fields of a row, the number of non-empty text fields in a list of rows,
  and the orderings the claims speak of: by the millisecond value of the timestamp field.
\<close>

definition text_a :: "row \<Rightarrow> string" where
  "text_a r = fst (snd r)"

definition text_b :: "row \<Rightarrow> string" where
  "text_b r = snd (snd r)"

definition contributions :: "row list \<Rightarrow> nat" where
  "contributions rows =
     length (filter (\<lambda>r. text_a r \<noteq> []) rows) + length (filter (\<lambda>r. text_b r \<noteq> []) rows)"

definition nondecreasing_track :: "entry list \<Rightarrow> bool" where
  "nondecreasing_track es = sorted (map (\<lambda>e. ms_value (fst e)) es)"

definition nondecreasing_rows :: "row list \<Rightarrow> bool" where
  "nondecreasing_rows rows = sorted (map (\<lambda>r. ms_value (fst r)) rows)"

definition nondecreasing_within :: "int \<Rightarrow> row list \<Rightarrow> bool" where
  "nondecreasing_within slack rows =
     sorted_wrt (\<lambda>x y. x - slack \<le> y) (map (\<lambda>r. ms_value (fst r)) rows)"

definition texts_nonempty :: "entry list \<Rightarrow> bool" where
  "texts_nonempty es = list_all (\<lambda>e. snd e \<noteq> []) es"

text \<open>A non-empty string of decimal digits.\<close>

definition digit_string :: "string \<Rightarrow> bool" where
  "digit_string s = (s \<noteq> [] \<and> list_all is_digit s)"

text \<open>Decimal digits of a natural number, and zero-padding on the left to a width.\<close>

definition digit_char :: "nat \<Rightarrow> char" where
  "digit_char n = ''0123456789'' ! n"

fun decimal :: "nat \<Rightarrow> string" where
  "decimal n = (if n < 10 then [digit_char n] else decimal (n div 10) @ [digit_char (n mod 10)])"

declare decimal.simps [simp del]

definition zero_pad :: "nat \<Rightarrow> string \<Rightarrow> string" where
  "zero_pad w s = replicate (w - length s) (CHR ''0'') @ s"

text \<open>
  Modelled from the spec: the program has no formatter (the canonical text is the one the
  parser builds), so the canonical textual form \<open>H:MM:SS,mmm\<close> of a millisecond value is
  written from the data model: hours in decimal, zero-padded to at least \<open>w\<close> digits (the
  spec prints them with one digit as well as two), minutes and seconds zero-padded to two
  digits, milliseconds to three.
\<close>

definition canonical_format :: "nat \<Rightarrow> int \<Rightarrow> string" where
  "canonical_format w m =
     zero_pad w (decimal (nat (m div 3600000))) @ '':'' @
     zero_pad 2 (decimal (nat (m div 60000 mod 60))) @ '':'' @
     zero_pad 2 (decimal (nat (m div 1000 mod 60))) @ '','' @
     zero_pad 3 (decimal (nat (m mod 1000)))"

text \<open>
  A block the parser keeps: at least three lines, the second matching the pattern. Then
  two conditions on a block of text: it holds no blank line (two line feeds in a row), and
  it does not end in a line feed.
\<close>

definition well_formed_block :: "string \<Rightarrow> bool" where
  "well_formed_block block =
     (let lines = split_str ''\<newline>'' block in
      length lines \<ge> 3 \<and> timecode_pattern (lines ! 1) \<noteq> None)"

fun no_blank_line :: "string \<Rightarrow> bool" where
  "no_blank_line (c # d # cs) = (\<not> (c = CHR ''\<newline>'' \<and> d = CHR ''\<newline>'') \<and> no_blank_line (d # cs))"
| "no_blank_line cs = True"

definition sealed :: "string \<Rightarrow> bool" where
  "sealed b = (b = [] \<or> last b \<noteq> CHR ''\<newline>'')"

text \<open>
  What the compiled pattern accepts, said without the matcher: the line begins with
  \<open>digits:digits:digits\<close>, a comma or a period, digits, optional white space, \<open>-->\<close>, optional
  white space, and the same again; anything may follow.
\<close>

definition hms_text :: "string \<Rightarrow> bool" where
  "hms_text g = (\<exists>h m s. digit_string h \<and> digit_string m \<and> digit_string s \<and>
                   g = h @ '':'' @ m @ '':'' @ s)"

definition no_digit_ahead :: "string \<Rightarrow> bool" where
  "no_digit_ahead r = (case r of [] \<Rightarrow> True | c # cs \<Rightarrow> \<not> is_digit c)"




text \<open>
  How rows are put together from two tracks: each row takes the next entry of both tracks,
  of track A only, or of track B only. \<open>assemble\<close> succeeds when the plan uses up both
  tracks exactly.
\<close>

datatype pairing = Both | Only_A | Only_B

fun assemble :: "pairing list \<Rightarrow> entry list \<Rightarrow> entry list \<Rightarrow> row list option" where
  "assemble [] [] [] = Some []"
| "assemble (Both # ps) (a # as) (b # bs) =
     map_option ((#) (fst a, snd a, snd b)) (assemble ps as bs)"
| "assemble (Only_A # ps) (a # as) bs =
     map_option ((#) (fst a, snd a, '''')) (assemble ps as bs)"
| "assemble (Only_B # ps) as (b # bs) =
     map_option ((#) (fst b, '''', snd b)) (assemble ps as bs)"
| "assemble ps as bs = None"

section \<open>String conversions\<close>

lemma split_str_nonempty: "split_str sep s \<noteq> []"
  by (induction sep s rule: split_str.induct) (auto split: list.splits)

lemma split_str_no_sep: "c \<notin> set s \<Longrightarrow> split_str [c] s = [s]"
  by (induction s) auto

lemma split_str_at_sep:
  "c \<notin> set xs \<Longrightarrow> split_str [c] (xs @ c # rest) = xs # split_str [c] rest"
  by (induction xs) auto


lemma is_digit_not_int_space: "is_digit c \<Longrightarrow> \<not> is_int_space c"
  by (auto simp: is_digit_def is_int_space_def)

lemma is_digit_not_punct:
  "is_digit c \<Longrightarrow> c \<noteq> CHR '':'' \<and> c \<noteq> CHR '','' \<and> c \<noteq> CHR ''.'' \<and> c \<noteq> CHR ''-'' \<and>
     c \<noteq> CHR ''+'' \<and> c \<noteq> CHR ''_''"
  by (auto simp: is_digit_def)

lemma digit_string_no_punct:
  "digit_string s \<Longrightarrow> CHR '':'' \<notin> set s \<and> CHR '','' \<notin> set s"
  using is_digit_not_punct by (auto simp: digit_string_def list_all_iff)

lemma int_strip_digit_string: "digit_string s \<Longrightarrow> int_strip s = s"
proof -
  assume d: "digit_string s"
  then have ne: "s \<noteq> []" and "\<not> is_int_space (hd s)" and "\<not> is_int_space (last s)"
    using is_digit_not_int_space by (auto simp: digit_string_def list_all_iff)
  then have "dropWhile is_int_space s = s" and "dropWhile is_int_space (rev s) = rev s"
    by (simp_all add: dropWhile_eq_self_iff hd_rev)
  then show ?thesis by (simp add: int_strip_def)
qed

lemma int_body_ok_digits: "s \<noteq> [] \<Longrightarrow> list_all is_digit s \<Longrightarrow> int_body_ok s"
  by (induction s rule: int_body_ok.induct) (auto dest: is_digit_not_punct)

lemma py_int_digit_string: "digit_string s \<Longrightarrow> py_int s = Some (digits_val s)"
proof -
  assume d: "digit_string s"
  then obtain c cs where s: "s = c # cs" by (auto simp: digit_string_def neq_Nil_conv)
  have c: "c \<noteq> CHR ''-''" "c \<noteq> CHR ''+''"
    using d s is_digit_not_punct by (auto simp: digit_string_def)
  have f: "filter is_digit s = s"
    using d by (simp add: digit_string_def list_all_iff)
  have ok: "int_body_ok s" using d by (simp add: digit_string_def int_body_ok_digits)
  have "py_int s = (if int_body_ok s then Some (1 * digits_val (filter is_digit s)) else None)"
    unfolding py_int_def int_strip_digit_string [OF d] using c by (simp add: s)
  then show ?thesis by (simp add: ok f)
qed

lemma time_to_ms_digit_strings:
  assumes "digit_string h" "digit_string m" "digit_string s" "digit_string ms"
  shows "time_to_ms (h @ '':'' @ m @ '':'' @ s @ '','' @ ms) =
           Inr (digits_val h * 3600000 + digits_val m * 60000 + digits_val s * 1000 + digits_val ms)"
proof -
  have "CHR '':'' \<notin> set (s @ '','' @ ms)"
    using assms digit_string_no_punct by auto
  then have "split_str '':'' (h @ '':'' @ m @ '':'' @ s @ '','' @ ms) = [h, m, s @ '','' @ ms]"
    using assms digit_string_no_punct by (simp add: split_str_at_sep split_str_no_sep)
  moreover have "split_str '','' (s @ '','' @ ms) = [s, ms]"
    using assms digit_string_no_punct by (simp add: split_str_at_sep split_str_no_sep)
  ultimately show ?thesis
    using assms by (simp add: time_to_ms_def py_int_digit_string)
qed

lemma digit_char_props: "n < 10 \<Longrightarrow> is_digit (digit_char n) \<and> digit_val (digit_char n) = int n"
proof -
  have "list_all (\<lambda>k. is_digit (digit_char k) \<and> digit_val (digit_char k) = int k) [0..<10]"
    by code_simp
  moreover assume "n < 10"
  ultimately show ?thesis
    by (simp add: list_all_iff)
qed

lemma digits_val_snoc: "digits_val (xs @ [c]) = 10 * digits_val xs + digit_val c"
  by (simp add: digits_val_def)

lemma digits_val_zeros: "digits_val (replicate k (CHR ''0'') @ s) = digits_val s"
proof -
  have "foldl (\<lambda>acc c. 10 * acc + digit_val c) 0 (replicate k (CHR ''0'')) = 0"
    by (induction k) (simp_all add: digit_val_def)
  then show ?thesis by (simp add: digits_val_def)
qed

lemma decimal_digits: "digit_string (decimal n) \<and> digits_val (decimal n) = int n"
proof (induction n rule: decimal.induct)
  case (1 n)
  show ?case
  proof (cases "n < 10")
    case True
    then show ?thesis
      using digit_char_props [of n]
      by (simp add: decimal.simps [of n] digit_string_def digits_val_def)
  next
    case False
    have "n mod 10 < 10" by simp
    moreover have "10 * int (n div 10) + int (n mod 10) = int n"
      by presburger
    ultimately show ?thesis
      using False "1.IH" [OF False] digit_char_props [of "n mod 10"]
      by (simp add: decimal.simps [of n] digit_string_def digits_val_snoc)
  qed
qed

lemma zero_pad_digits:
  "digit_string s \<Longrightarrow> digit_string (zero_pad w s) \<and> digits_val (zero_pad w s) = digits_val s"
proof -
  have "is_digit (CHR ''0'')" by (simp add: is_digit_def)
  then show "digit_string s \<Longrightarrow> ?thesis"
    by (auto simp: zero_pad_def digits_val_zeros digit_string_def list_all_iff)
qed

lemma ms_recompose:
  fixes m :: int
  assumes "0 \<le> m"
  shows "m div 3600000 * 3600000 + m div 60000 mod 60 * 60000 + m div 1000 mod 60 * 1000 +
           m mod 1000 = m"
proof -
  have a: "m div 60000 = m div 1000 div 60"
    by (simp add: zdiv_zmult2_eq [symmetric])
  have b: "m div 3600000 = m div 60000 div 60"
    by (simp add: zdiv_zmult2_eq [symmetric])
  have "m div 60000 div 60 * 3600000 + m div 60000 mod 60 * 60000 = m div 60000 * 60000"
    using div_mult_mod_eq [of "m div 60000" 60] by linarith
  moreover have "m div 1000 div 60 * 60000 + m div 1000 mod 60 * 1000 = m div 1000 * 1000"
    using div_mult_mod_eq [of "m div 1000" 60] by linarith
  moreover have "m div 1000 * 1000 + m mod 1000 = m"
    by simp
  ultimately show ?thesis
    using a b by simp
qed

lemma time_to_ms_canonical:
  assumes "0 \<le> m"
  shows "time_to_ms (canonical_format w m) = Inr m"
proof -
  let ?h = "nat (m div 3600000)" and ?mi = "nat (m div 60000 mod 60)"
    and ?s = "nat (m div 1000 mod 60)" and ?ms = "nat (m mod 1000)"
  have v: "int ?h = m div 3600000" "int ?mi = m div 60000 mod 60"
    "int ?s = m div 1000 mod 60" "int ?ms = m mod 1000"
    using assms by (simp_all add: pos_imp_zdiv_nonneg_iff)
  have "time_to_ms (canonical_format w m) =
          Inr (int ?h * 3600000 + int ?mi * 60000 + int ?s * 1000 + int ?ms)"
    unfolding canonical_format_def
    using time_to_ms_digit_strings [of "zero_pad w (decimal ?h)" "zero_pad 2 (decimal ?mi)"
        "zero_pad 2 (decimal ?s)" "zero_pad 3 (decimal ?ms)"]
    by (simp add: zero_pad_digits decimal_digits)
  then show ?thesis
    unfolding v using ms_recompose [OF assms] by simp
qed

subsection \<open>The pattern\<close>

lemma digits1_Some:
  "digits1 s = Some (d, r) \<longleftrightarrow> digit_string d \<and> s = d @ r \<and> no_digit_ahead r"
proof
  assume a: "digits1 s = Some (d, r)"
  then have d: "d = takeWhile is_digit s" and r: "r = dropWhile is_digit s" and ne: "d \<noteq> []"
    by (auto simp: digits1_def split: list.splits)
  have "no_digit_ahead r"
  proof (cases r)
    case Nil
    then show ?thesis by (simp add: no_digit_ahead_def)
  next
    case (Cons c cs)
    then have "dropWhile is_digit s = c # cs" using r by simp
    then have "\<not> is_digit c" by (simp add: dropWhile_eq_Cons_conv)
    then show ?thesis using Cons by (simp add: no_digit_ahead_def)
  qed
  moreover have "list_all is_digit d"
    unfolding d by (auto simp: list_all_iff dest: set_takeWhileD)
  ultimately show "digit_string d \<and> s = d @ r \<and> no_digit_ahead r"
    using ne by (simp add: digit_string_def d r)
next
  assume a: "digit_string d \<and> s = d @ r \<and> no_digit_ahead r"
  then have all: "\<forall>c \<in> set d. is_digit c" and ne: "d \<noteq> []"
    by (auto simp: digit_string_def list_all_iff)
  have tr: "takeWhile is_digit r = []" and dr: "dropWhile is_digit r = r"
    using a by (auto simp: no_digit_ahead_def split: list.splits)
  have "takeWhile is_digit s = d" and "dropWhile is_digit s = r"
    using a all tr dr by simp_all
  then show "digits1 s = Some (d, r)"
    using ne by (auto simp: digits1_def split: list.splits)
qed

lemma lit_Some: "lit p s = Some r \<longleftrightarrow> s = p @ r"
  by (auto simp: lit_def prefix_def)

lemma comma_or_dot_Some:
  "comma_or_dot s = Some r \<longleftrightarrow> (\<exists>c. (c = CHR '','' \<or> c = CHR ''.'') \<and> s = c # r)"
  by (auto simp: comma_or_dot_def split: list.splits)


lemma spaces_decompose: "\<exists>w. list_all is_space w \<and> s = w @ spaces s"
proof -
  have "list_all is_space (takeWhile is_space s)"
    by (auto simp: list_all_iff dest: set_takeWhileD)
  moreover have "s = takeWhile is_space s @ spaces s"
    by (simp add: spaces_def)
  ultimately show ?thesis by blast
qed

lemma hms_Some:
  "hms s = Some (g, r) \<longleftrightarrow>
     (\<exists>h m sec. digit_string h \<and> digit_string m \<and> digit_string sec \<and>
        g = h @ '':'' @ m @ '':'' @ sec \<and> s = g @ r \<and> no_digit_ahead r)"
proof
  assume "hms s = Some (g, r)"
  then obtain h r1 r2 m r3 r4 sec where
    "digits1 s = Some (h, r1)" "lit '':'' r1 = Some r2" "digits1 r2 = Some (m, r3)"
    "lit '':'' r3 = Some r4" "digits1 r4 = Some (sec, r)" "g = h @ '':'' @ m @ '':'' @ sec"
    by (auto simp: hms_def split: Option.bind_splits)
  then show "\<exists>h m sec. digit_string h \<and> digit_string m \<and> digit_string sec \<and>
        g = h @ '':'' @ m @ '':'' @ sec \<and> s = g @ r \<and> no_digit_ahead r"
    by (auto simp: digits1_Some lit_Some)
next
  assume "\<exists>h m sec. digit_string h \<and> digit_string m \<and> digit_string sec \<and>
        g = h @ '':'' @ m @ '':'' @ sec \<and> s = g @ r \<and> no_digit_ahead r"
  then obtain h m sec where d: "digit_string h" "digit_string m" "digit_string sec"
    and g: "g = h @ '':'' @ m @ '':'' @ sec" and s: "s = g @ r" and r: "no_digit_ahead r"
    by blast
  have colon: "no_digit_ahead ('':'' @ t)" for t
    by (simp add: no_digit_ahead_def is_digit_def)
  have 1: "digits1 s = Some (h, CHR '':'' # m @ CHR '':'' # sec @ r)"
    using d(1) colon [of "m @ '':'' @ sec @ r"] by (simp add: digits1_Some s g)
  have 2: "digits1 (m @ CHR '':'' # sec @ r) = Some (m, CHR '':'' # sec @ r)"
    using d(2) colon [of "sec @ r"] by (simp add: digits1_Some)
  have 3: "digits1 (sec @ r) = Some (sec, r)"
    using d(3) r by (simp add: digits1_Some)
  show "hms s = Some (g, r)"
    by (simp add: hms_def 1 2 3 lit_def g)
qed

lemma hms_text_start:
  assumes "hms_text g" and "digit_string g2"
  shows "\<exists>h m s. digit_string h \<and> digit_string m \<and> digit_string s \<and> g = h @ '':'' @ m @ '':'' @ s \<and>
           time_to_ms (g @ '','' @ take 3 (ljust 3 (CHR ''0'') g2)) =
             Inr (digits_val h * 3600000 + digits_val m * 60000 + digits_val s * 1000 +
                  digits_val (take 3 (ljust 3 (CHR ''0'') g2)))"
proof -
  from assms(1) obtain h m s where d: "digit_string h" "digit_string m" "digit_string s"
    and g: "g = h @ '':'' @ m @ '':'' @ s"
    by (auto simp: hms_text_def)
  have z: "is_digit (CHR ''0'')" by (simp add: is_digit_def)
  have "digit_string (take 3 (ljust 3 (CHR ''0'') g2))"
    using assms(2) z
    by (cases g2) (auto simp: digit_string_def ljust_def list_all_iff dest: in_set_takeD)
  from time_to_ms_digit_strings [OF d this] d g show ?thesis
    by auto
qed



lemma timecode_pattern_groups:
  assumes "timecode_pattern line = Some (g1, g2, g3, g4)"
  shows "\<exists>p1 w1 w2 p2 rest.
           hms_text g1 \<and> (p1 = CHR '','' \<or> p1 = CHR ''.'') \<and> digit_string g2 \<and>
           list_all is_space w1 \<and> list_all is_space w2 \<and>
           hms_text g3 \<and> (p2 = CHR '','' \<or> p2 = CHR ''.'') \<and> digit_string g4 \<and>
           line = g1 @ [p1] @ g2 @ w1 @ ''-->'' @ w2 @ g3 @ [p2] @ g4 @ rest"
proof -
  from assms obtain r1 r2 r3 r4 r5 r6 r7 where
    1: "hms line = Some (g1, r1)" and 2: "comma_or_dot r1 = Some r2"
    and 3: "digits1 r2 = Some (g2, r3)" and 4: "lit ''-->'' (spaces r3) = Some r4"
    and 5: "hms (spaces r4) = Some (g3, r5)" and 6: "comma_or_dot r5 = Some r6"
    and 7: "digits1 r6 = Some (g4, r7)"
    by (auto simp: timecode_pattern_def split: Option.bind_splits)
  obtain w1 where w1: "list_all is_space w1" "r3 = w1 @ spaces r3"
    using spaces_decompose by blast
  obtain w2 where w2: "list_all is_space w2" "r4 = w2 @ spaces r4"
    using spaces_decompose by blast
  from 1 have g1: "hms_text g1" and l1: "line = g1 @ r1"
    by (auto simp: hms_Some hms_text_def)
  from 2 obtain p1 where p1: "p1 = CHR '','' \<or> p1 = CHR ''.''" "r1 = p1 # r2"
    by (auto simp: comma_or_dot_Some)
  from 3 have g2: "digit_string g2" and l3: "r2 = g2 @ r3"
    by (auto simp: digits1_Some)
  from 4 have l4: "spaces r3 = ''-->'' @ r4"
    by (simp add: lit_Some)
  from 5 have g3: "hms_text g3" and l5: "spaces r4 = g3 @ r5"
    by (auto simp: hms_Some hms_text_def)
  from 6 obtain p2 where p2: "p2 = CHR '','' \<or> p2 = CHR ''.''" "r5 = p2 # r6"
    by (auto simp: comma_or_dot_Some)
  from 7 have g4: "digit_string g4" and l7: "r6 = g4 @ r7"
    by (auto simp: digits1_Some)
  have "r4 = w2 @ g3 @ [p2] @ g4 @ r7"
    using w2(2) l5 p2(2) l7 by simp
  moreover have "r3 = w1 @ ''-->'' @ r4"
    using w1(2) l4 by simp
  ultimately have "line = g1 @ [p1] @ g2 @ w1 @ ''-->'' @ w2 @ g3 @ [p2] @ g4 @ r7"
    using l1 p1(2) l3 by simp
  with g1 p1(1) g2 w1(1) w2(1) g3 p2(1) g4 show ?thesis
    by blast
qed


subsection \<open>Blocks and lines\<close>

lemma parse_blocks_eq: "parse_blocks blocks entries = entries @ concat (map block_entries blocks)"
  by (induction blocks arbitrary: entries) simp_all

lemma block_entries_malformed: "\<not> well_formed_block b \<Longrightarrow> block_entries b = []"
  by (auto simp: well_formed_block_def block_entries_def Let_def split: option.splits)

lemma block_entries_well_formed: "well_formed_block b \<Longrightarrow> length (block_entries b) = 1"
  by (auto simp: well_formed_block_def block_entries_def Let_def split: option.splits)

lemma concat_block_entries_filter:
  "concat (map block_entries (filter well_formed_block bs)) = concat (map block_entries bs)"
  by (induction bs) (simp_all add: block_entries_malformed)

lemma length_concat_block_entries:
  "length (concat (map block_entries bs)) = length (filter well_formed_block bs)"
  by (induction bs) (simp_all add: block_entries_malformed block_entries_well_formed)

lemma parse_srt_eq:
  "parse_srt (Inr text) =
     Some (concat (map block_entries (split_str ''\<newline>\<newline>'' (strip text))))"
  by (simp add: parse_srt_def parse_blocks_eq)

lemma split_blank_no_sep:
  "no_blank_line b \<Longrightarrow> split_str ''\<newline>\<newline>'' b = [b]"
  by (induction b rule: no_blank_line.induct) auto

lemma split_blank_at_sep:
  "no_blank_line b \<Longrightarrow> sealed b \<Longrightarrow>
   split_str ''\<newline>\<newline>'' (b @ ''\<newline>\<newline>'' @ rest) = b # split_str ''\<newline>\<newline>'' rest"
  by (induction b rule: no_blank_line.induct) (auto simp: sealed_def split: if_splits)

lemma split_join_blocks:
  "blocks \<noteq> [] \<Longrightarrow> list_all no_blank_line blocks \<Longrightarrow> list_all sealed (butlast blocks) \<Longrightarrow>
   split_str ''\<newline>\<newline>'' (join ''\<newline>\<newline>'' blocks) = blocks"
proof (induction "''\<newline>\<newline>''" blocks rule: join.induct)
  case 1
  then show ?case by simp
next
  case (2 x)
  then show ?case by (simp add: split_blank_no_sep)
next
  case (3 x y xs)
  then show ?case
    using split_blank_at_sep [of x "join ''\<newline>\<newline>'' (y # xs)"] by simp
qed

lemma split_str_leading_empty:
  "split_str sep s = [] # ps \<Longrightarrow> ps \<noteq> [] \<Longrightarrow> sep \<noteq> [] \<and> prefix sep s"
  by (cases s) (auto split: if_splits list.splits)

lemma split_str_prefix:
  "sep \<noteq> [] \<Longrightarrow> prefix sep s \<Longrightarrow>
   split_str sep s = [] # split_str sep (drop (length sep) s)"
  by (cases s) auto

lemma split_str_no_prefix:
  "\<not> prefix sep (c # cs) \<Longrightarrow>
   split_str sep (c # cs) = (case split_str sep cs of [] \<Rightarrow> [[c]] | p # ps \<Rightarrow> (c # p) # ps)"
  by simp

lemma split_blank_sealed: "list_all sealed (butlast (split_str ''\<newline>\<newline>'' s))"
proof (induction "''\<newline>\<newline>''" s rule: split_str.induct)
  case 1
  then show ?case by simp
next
  case (2 c cs)
  have ne: "''\<newline>\<newline>'' \<noteq> []" by simp
  show ?case
  proof (cases "prefix ''\<newline>\<newline>'' (c # cs)")
    case True
    have "list_all sealed (butlast (split_str ''\<newline>\<newline>'' (drop (length ''\<newline>\<newline>'') (c # cs))))"
      using 2(1) ne True by blast
    moreover have "sealed []" by (simp add: sealed_def)
    ultimately show ?thesis
      unfolding split_str_prefix [OF ne True]
      using split_str_nonempty [of "''\<newline>\<newline>''" "drop (length ''\<newline>\<newline>'') (c # cs)"]
      by simp
  next
    case False
    obtain p ps where s: "split_str ''\<newline>\<newline>'' cs = p # ps"
      using split_str_nonempty [of "''\<newline>\<newline>''" cs] by (cases "split_str ''\<newline>\<newline>'' cs") auto
    have ih: "list_all sealed (butlast (p # ps))"
      using 2(2) False unfolding s by blast
    have "sealed (c # p)" if "ps \<noteq> []"
    proof (cases p)
      case Nil
      then have "prefix ''\<newline>\<newline>'' cs"
        using split_str_leading_empty [of "''\<newline>\<newline>''" cs ps] s that by simp
      then have "c \<noteq> CHR ''\<newline>''"
        using False by (auto simp: prefix_def)
      then show ?thesis using Nil by (simp add: sealed_def)
    next
      case (Cons a as)
      then show ?thesis using ih that by (simp add: sealed_def)
    qed
    then show ?thesis
      unfolding split_str_no_prefix [OF False] s using ih by (cases ps) auto
  qed
qed

lemma join_split_str: "join sep (split_str sep s) = s"
proof (induction sep s rule: split_str.induct)
  case (1 sep)
  then show ?case by simp
next
  case (2 sep c cs)
  show ?case
  proof (cases "sep \<noteq> [] \<and> prefix sep (c # cs)")
    case True
    obtain y ys where r: "split_str sep (drop (length sep) (c # cs)) = y # ys"
      using split_str_nonempty [of sep "drop (length sep) (c # cs)"]
      by (cases "split_str sep (drop (length sep) (c # cs))") auto
    have "join sep (y # ys) = drop (length sep) (c # cs)"
      using 2(1) True r by simp
    moreover have "sep @ drop (length sep) (c # cs) = c # cs"
      using True by (auto simp: prefix_def)
    ultimately have "join sep ([] # y # ys) = c # cs"
      by simp
    then show ?thesis
      using True r by (simp add: split_str_prefix del: split_str.simps)
  next
    case False
    obtain p ps where s: "split_str sep cs = p # ps"
      using split_str_nonempty [of sep cs] by (cases "split_str sep cs") auto
    have "join sep (p # ps) = cs"
      using 2(2) False s by simp
    then have "join sep ((c # p) # ps) = c # cs"
      by (cases ps) auto
    then show ?thesis
      using False s by auto
  qed
qed

lemma join_last_suffix: "xs \<noteq> [] \<Longrightarrow> suffix (last xs) (join sep xs)"
  by (induction sep xs rule: join.induct) (auto simp: suffix_append)

lemma split_str_last_suffix: "suffix (last (split_str sep s)) s"
  using join_last_suffix [of "split_str sep s" sep] split_str_nonempty [of sep s]
  by (simp add: join_split_str)

lemma strip_sealed: "strip s = [] \<or> \<not> is_space (last (strip s))"
proof (cases "dropWhile is_space (rev (dropWhile is_space s))")
  case Nil
  then show ?thesis by (simp add: strip_def)
next
  case (Cons a as)
  then have "\<not> is_space a" by (simp add: dropWhile_eq_Cons_conv)
  then show ?thesis using Cons by (simp add: strip_def)
qed

lemma blocks_sealed: "list_all sealed (split_str ''\<newline>\<newline>'' (strip doc))"
proof -
  let ?bs = "split_str ''\<newline>\<newline>'' (strip doc)"
  have ne: "?bs \<noteq> []" by (rule split_str_nonempty)
  have "sealed (last ?bs)"
  proof (cases "last ?bs = []")
    case True
    then show ?thesis by (simp add: sealed_def)
  next
    case False
    obtain xs where xs: "strip doc = xs @ last ?bs"
      using split_str_last_suffix [of "''\<newline>\<newline>''" "strip doc"] by (auto simp: suffix_def)
    have "last (strip doc) = last (last ?bs)"
      using False by (subst xs) simp
    moreover have "strip doc \<noteq> []"
      using False by (subst xs) simp
    ultimately have "\<not> is_space (last (last ?bs))"
      using strip_sealed [of doc] by auto
    moreover have "is_space (CHR ''\<newline>'')" by (simp add: is_space_def)
    ultimately show ?thesis by (auto simp: sealed_def)
  qed
  moreover have "list_all sealed (butlast ?bs)" by (rule split_blank_sealed)
  ultimately have "list_all sealed (butlast ?bs @ [last ?bs])" by simp
  then show ?thesis using ne by simp
qed

lemma split_line_last_empty:
  "last (split_str [c] s) = [] \<Longrightarrow> s = [] \<or> last s = c"
proof (induction s)
  case Nil
  then show ?case by simp
next
  case (Cons x xs)
  obtain p ps where s: "split_str [c] xs = p # ps"
    using split_str_nonempty [of "[c]" xs] by (cases "split_str [c] xs") auto
  show ?case
  proof (cases "x = c")
    case True
    then show ?thesis using Cons s by (auto split: if_splits)
  next
    case False
    then have "ps \<noteq> []" and "last (split_str [c] xs) = []"
      using Cons.prems s by (auto split: if_splits)
    then have "xs = [] \<or> last xs = c" using Cons.IH by simp
    moreover have "xs \<noteq> []" using \<open>ps \<noteq> []\<close> s by auto
    ultimately show ?thesis by simp
  qed
qed

lemma join_nonempty: "sep \<noteq> [] \<Longrightarrow> xs \<noteq> [] \<Longrightarrow> xs \<noteq> [[]] \<Longrightarrow> join sep xs \<noteq> []"
  by (induction sep xs rule: join.induct) auto

lemma block_text_nonempty:
  assumes "sealed b" and "3 \<le> length (split_str ''\<newline>'' b)"
  shows "replace_char (CHR ''\<newline>'') (CHR '' '') (join '' '' (drop 2 (split_str ''\<newline>'' b))) \<noteq> []"
proof -
  let ?lines = "split_str ''\<newline>'' b"
  have ne: "drop 2 ?lines \<noteq> []" using assms(2) by simp
  have "drop 2 ?lines \<noteq> [[]]"
  proof
    assume e: "drop 2 ?lines = [[]]"
    have "last (drop 2 ?lines) = last ?lines"
      using assms(2) by (simp add: last_drop)
    then have "last ?lines = []" using e by simp
    then have "b = [] \<or> last b = CHR ''\<newline>''" by (rule split_line_last_empty)
    then show False using assms by (auto simp: sealed_def)
  qed
  then have "join '' '' (drop 2 ?lines) \<noteq> []"
    using ne join_nonempty [of "'' ''" "drop 2 ?lines"] by simp
  then show ?thesis by (simp add: replace_char_def)
qed

section \<open>The loops of the aligner\<close>

lemma drain_ko_eq:
  "drain_ko ko st =
     st\<lparr>aligned := aligned st @ map solo_ko (drop (ko_ptr st) ko),
        ko_ptr := max (ko_ptr st) (length ko)\<rparr>"
proof (induction ko st rule: drain_ko.induct)
  case (1 ko st)
  show ?case
  proof (cases "ko_ptr st < length ko")
    case True
    have d: "drop (ko_ptr st) ko = ko ! ko_ptr st # drop (Suc (ko_ptr st)) ko"
      using True by (simp add: Cons_nth_drop_Suc)
    show ?thesis
      using True "1.IH" [OF True]
      by (subst drain_ko.simps) (simp add: d solo_ko_def max_def)
  next
    case False
    then show ?thesis
      by (subst drain_ko.simps) (simp add: max_def)
  qed
qed

lemma drain_ja_eq:
  "drain_ja ja st =
     st\<lparr>aligned := aligned st @ map solo_ja (drop (ja_ptr st) ja),
        ja_ptr := max (ja_ptr st) (length ja)\<rparr>"
proof (induction ja st rule: drain_ja.induct)
  case (1 ja st)
  show ?case
  proof (cases "ja_ptr st < length ja")
    case True
    have d: "drop (ja_ptr st) ja = ja ! ja_ptr st # drop (Suc (ja_ptr st)) ja"
      using True by (simp add: Cons_nth_drop_Suc)
    show ?thesis
      using True "1.IH" [OF True]
      by (subst drain_ja.simps) (simp add: d solo_ja_def max_def)
  next
    case False
    then show ?thesis
      by (subst drain_ja.simps) (simp add: max_def)
  qed
qed

lemma weave_Nil2: "weave ko [] t = map solo_ko ko"
  by (cases ko) simp_all

lemma drained_rows:
  "aligned (drain_ja ja (drain_ko ko st)) =
     aligned st @ map solo_ko (drop (ko_ptr st) ko) @ map solo_ja (drop (ja_ptr st) ja)"
  by (simp add: drain_ja_eq drain_ko_eq)

lemma well_timed_nth:
  "well_timed es \<Longrightarrow> i < length es \<Longrightarrow> time_to_ms (fst (es ! i)) = Inr (ms_value (fst (es ! i)))"
  by (auto simp: well_timed_def list_all_length timestamp_ok_def ms_value_def split: sum.splits)

lemma main_loop_weave:
  "well_timed ko \<Longrightarrow> well_timed ja \<Longrightarrow>
   \<exists>st'. main_loop ko ja t st = Inr st' \<and>
     aligned (drain_ja ja (drain_ko ko st')) =
       aligned st @ weave (drop (ko_ptr st) ko) (drop (ja_ptr st) ja) t"
proof (induction ko ja t st rule: main_loop.induct)
  case (1 ko ja t st)
  show ?case
  proof (cases "ko_ptr st < length ko \<and> ja_ptr st < length ja")
    case False
    have "main_loop ko ja t st = Inr st"
      using False by (subst main_loop.simps) auto
    moreover have "weave (drop (ko_ptr st) ko) (drop (ja_ptr st) ja) t =
        map solo_ko (drop (ko_ptr st) ko) @ map solo_ja (drop (ja_ptr st) ja)"
    proof (cases "ko_ptr st < length ko")
      case True
      with False have "drop (ja_ptr st) ja = []" by simp
      then show ?thesis by (simp add: weave_Nil2)
    next
      case False
      then show ?thesis by simp
    qed
    ultimately show ?thesis by (simp add: drained_rows)
  next
    case True
    let ?a = "ko ! ko_ptr st" and ?b = "ja ! ja_ptr st"
    have da: "drop (ko_ptr st) ko = ?a # drop (Suc (ko_ptr st)) ko"
      and db: "drop (ja_ptr st) ja = ?b # drop (Suc (ja_ptr st)) ja"
      using True by (simp_all add: Cons_nth_drop_Suc)
    have ta: "time_to_ms (fst ?a) = Inr (ms_value (fst ?a))"
      and tb: "time_to_ms (fst ?b) = Inr (ms_value (fst ?b))"
      using True "1.prems" by (simp_all add: well_timed_nth)
    have "\<exists>st1. loop_body ko ja t st = Inr st1"
      by (simp add: loop_body_def ta tb)
    then obtain st1 where b: "loop_body ko ja t st = Inr st1" ..
    from "1.IH" [OF True b "1.prems"] obtain st' where
      r: "main_loop ko ja t st1 = Inr st'"
      and a: "aligned (drain_ja ja (drain_ko ko st')) =
                aligned st1 @ weave (drop (ko_ptr st1) ko) (drop (ja_ptr st1) ja) t"
      by blast
    have m: "main_loop ko ja t st = Inr st'"
      using True b r by (subst main_loop.simps) simp
    have "aligned st1 @ weave (drop (ko_ptr st1) ko) (drop (ja_ptr st1) ja) t =
            aligned st @ weave (drop (ko_ptr st) ko) (drop (ja_ptr st) ja) t"
      using b by (auto simp: loop_body_def ta tb da db solo_ko_def solo_ja_def split: if_splits)
    with m a show ?thesis by simp
  qed
qed

lemma align_subtitles_weave:
  "well_timed ko \<Longrightarrow> well_timed ja \<Longrightarrow> align_subtitles ko ja t = Inr (weave ko ja t)"
  using main_loop_weave [of ko ja t "\<lparr>aligned = [], ko_ptr = 0, ja_ptr = 0\<rparr>"]
  by (auto simp: align_subtitles_def)

lemma length_weave: "length (weave ko ja t) \<le> length ko + length ja"
  by (induction ko ja t rule: weave.induct) auto

lemma weave_lower:
  "\<forall>e \<in> set ko. l \<le> ms_value (fst e) \<Longrightarrow> \<forall>e \<in> set ja. l \<le> ms_value (fst e) \<Longrightarrow>
   r \<in> set (weave ko ja t) \<Longrightarrow> l \<le> ms_value (fst r)"
proof (induction ko ja t rule: weave.induct)
  case (1 ja t)
  then show ?case by (auto simp: solo_ja_def)
next
  case (2 a ko t)
  then show ?case by (auto simp: solo_ko_def)
next
  case (3 a ko b ja t)
  then show ?case by (auto simp: solo_ko_def solo_ja_def split: if_splits)
qed

lemma weave_within:
  "nondecreasing_track ko \<Longrightarrow> nondecreasing_track ja \<Longrightarrow>
   nondecreasing_within (max 0 t) (weave ko ja t)"
proof (induction ko ja t rule: weave.induct)
  case (1 ja t)
  then have "sorted (map (\<lambda>r. ms_value (fst r)) (map solo_ja ja))"
    by (simp add: nondecreasing_track_def solo_ja_def comp_def)
  then show ?case
    unfolding nondecreasing_within_def weave.simps
    by (rule sorted_wrt_mono_rel [rotated]) auto
next
  case (2 a ko t)
  then have "sorted (map (\<lambda>r. ms_value (fst r)) (map solo_ko (a # ko)))"
    by (simp add: nondecreasing_track_def solo_ko_def comp_def)
  then show ?case
    unfolding nondecreasing_within_def weave.simps
    by (rule sorted_wrt_mono_rel [rotated]) auto
next
  case (3 a ko b ja t)
  let ?ma = "ms_value (fst a)" and ?mb = "ms_value (fst b)" and ?s = "max 0 t"
  have ko: "nondecreasing_track ko" and ja: "nondecreasing_track ja"
    using "3.prems" by (simp_all add: nondecreasing_track_def)
  have ge_a: "\<forall>e \<in> set ko. ?ma \<le> ms_value (fst e)"
    and ge_b: "\<forall>e \<in> set ja. ?mb \<le> ms_value (fst e)"
    using "3.prems" by (auto simp: nondecreasing_track_def)
  show ?case
  proof (cases "\<bar>?ma - ?mb\<bar> \<le> t")
    case True
    have "\<forall>e \<in> set ko. ?ma - ?s \<le> ms_value (fst e)"
      using ge_a by fastforce
    moreover have "\<forall>e \<in> set ja. ?ma - ?s \<le> ms_value (fst e)"
      using ge_b True by fastforce
    ultimately have "\<forall>r \<in> set (weave ko ja t). ?ma - ?s \<le> ms_value (fst r)"
      using weave_lower by blast
    moreover have "nondecreasing_within ?s (weave ko ja t)"
      using "3.IH"(1) [OF True ko ja] .
    ultimately show ?thesis
      using True by (simp add: nondecreasing_within_def)
  next
    case False
    show ?thesis
    proof (cases "?ma < ?mb")
      case True
      have "\<forall>e \<in> set ko. ?ma - ?s \<le> ms_value (fst e)"
        using ge_a by fastforce
      moreover have "\<forall>e \<in> set (b # ja). ?ma - ?s \<le> ms_value (fst e)"
        using ge_b True by fastforce
      ultimately have "\<forall>r \<in> set (weave ko (b # ja) t). ?ma - ?s \<le> ms_value (fst r)"
        using weave_lower by blast
      moreover have "nondecreasing_within ?s (weave ko (b # ja) t)"
        using "3.IH"(2) [OF False True ko "3.prems"(2)] .
      ultimately show ?thesis
        using False True by (simp add: nondecreasing_within_def solo_ko_def)
    next
      case nlt: False
      have "\<forall>e \<in> set (a # ko). ?mb - ?s \<le> ms_value (fst e)"
        using ge_a nlt by fastforce
      moreover have "\<forall>e \<in> set ja. ?mb - ?s \<le> ms_value (fst e)"
        using ge_b by fastforce
      ultimately have "\<forall>r \<in> set (weave (a # ko) ja t). ?mb - ?s \<le> ms_value (fst r)"
        using weave_lower by blast
      moreover have "nondecreasing_within ?s (weave (a # ko) ja t)"
        using "3.IH"(3) [OF False nlt "3.prems"(1) ja] .
      ultimately show ?thesis
        using False nlt by (simp add: nondecreasing_within_def solo_ja_def)
    qed
  qed
qed

lemma weave_text_a:
  "texts_nonempty ko \<Longrightarrow>
   map (\<lambda>r. (fst r, text_a r)) (filter (\<lambda>r. text_a r \<noteq> []) (weave ko ja t)) = ko"
  by (induction ko ja t rule: weave.induct)
     (auto simp: solo_ko_def solo_ja_def text_a_def texts_nonempty_def filter_map comp_def
           list_all_iff filter_id_conv)

lemma weave_text_b:
  "texts_nonempty ja \<Longrightarrow>
   map text_b (filter (\<lambda>r. text_b r \<noteq> []) (weave ko ja t)) = map snd ja"
  by (induction ko ja t rule: weave.induct)
     (auto simp: solo_ko_def solo_ja_def text_b_def texts_nonempty_def filter_map comp_def
           list_all_iff filter_id_conv)

lemma weave_rows_nonempty:
  "texts_nonempty ko \<Longrightarrow> texts_nonempty ja \<Longrightarrow> r \<in> set (weave ko ja t) \<Longrightarrow>
   text_a r \<noteq> [] \<or> text_b r \<noteq> []"
  by (induction ko ja t rule: weave.induct)
     (auto simp: solo_ko_def solo_ja_def text_a_def text_b_def texts_nonempty_def
           list_all_iff split: if_splits)

lemma loop_body_progress:
  assumes "well_timed ko" "well_timed ja" "ko_ptr st < length ko" "ja_ptr st < length ja"
  shows "\<exists>st'. loop_body ko ja t st = Inr st' \<and>
           ko_ptr st + ja_ptr st < ko_ptr st' + ja_ptr st' \<and>
           length (aligned st') = Suc (length (aligned st))"
  using well_timed_nth [OF assms(1,3)] well_timed_nth [OF assms(2,4)]
  by (simp add: loop_body_def)

text \<open>Every entry the parser returns has a timestamp that converts and a non-empty text.\<close>

lemma block_entries_sound:
  assumes "sealed b" and "e \<in> set (block_entries b)"
  shows "timestamp_ok (fst e) \<and> snd e \<noteq> []"
proof -
  let ?lines = "split_str ''\<newline>'' b"
  have len: "3 \<le> length ?lines"
  proof (rule ccontr)
    assume "\<not> 3 \<le> length ?lines"
    then have "block_entries b = []" by (simp add: block_entries_def Let_def)
    with assms(2) show False by simp
  qed
  have "timecode_pattern (?lines ! 1) \<noteq> None"
  proof
    assume "timecode_pattern (?lines ! 1) = None"
    then have "block_entries b = []" by (simp add: block_entries_def Let_def)
    with assms(2) show False by simp
  qed
  then obtain g where "timecode_pattern (?lines ! 1) = Some g"
    by blast
  then obtain g1 g2 g3 g4 where m: "timecode_pattern (?lines ! 1) = Some (g1, g2, g3, g4)"
    by (cases g) auto
  have e: "e = (g1 @ '','' @ take 3 (ljust 3 (CHR ''0'') g2),
                replace_char (CHR ''\<newline>'') (CHR '' '') (join '' '' (drop 2 ?lines)))"
    using assms(2) len m by (simp add: block_entries_def Let_def)
  from timecode_pattern_groups [OF m] have "hms_text g1" and "digit_string g2" by auto
  from hms_text_start [OF this] have "timestamp_ok (fst e)"
    by (auto simp: e timestamp_ok_def)
  moreover have "snd e \<noteq> []"
    using block_text_nonempty [OF assms(1) len] by (simp add: e)
  ultimately show ?thesis by simp
qed

lemma parse_srt_sound:
  assumes "parse_srt file = Some entries"
  shows "well_timed entries \<and> texts_nonempty entries"
proof -
  from assms obtain doc where f: "file = Inr doc"
    by (cases "file") (auto simp: parse_srt_def)
  have "entries = concat (map block_entries (split_str ''\<newline>\<newline>'' (strip doc)))"
    using assms by (simp add: f parse_srt_eq)
  then have "\<forall>e \<in> set entries. timestamp_ok (fst e) \<and> snd e \<noteq> []"
    using blocks_sealed [of doc] block_entries_sound by (auto simp: list_all_iff)
  then show ?thesis
    by (simp add: well_timed_def texts_nonempty_def list_all_iff)
qed

lemma assemble_only_b: "assemble (replicate (length ja) Only_B) [] ja = Some (map solo_ja ja)"
  by (induction ja) (simp_all add: solo_ja_def)

lemma assemble_only_a: "assemble (replicate (length ko) Only_A) ko [] = Some (map solo_ko ko)"
  by (induction ko) (simp_all add: solo_ko_def)

lemma weave_assemble: "\<exists>ps. assemble ps ko ja = Some (weave ko ja t)"
proof (induction ko ja t rule: weave.induct)
  case (1 ja t)
  show ?case using assemble_only_b [of ja] by auto
next
  case (2 a ko t)
  show ?case using assemble_only_a [of "a # ko"] unfolding weave.simps by blast
next
  case (3 a ko b ja t)
  show ?case
  proof (cases "\<bar>ms_value (fst a) - ms_value (fst b)\<bar> \<le> t")
    case True
    from "3.IH"(1) [OF True] obtain ps where "assemble ps ko ja = Some (weave ko ja t)" ..
    then have "assemble (Both # ps) (a # ko) (b # ja) = Some (weave (a # ko) (b # ja) t)"
      using True by simp
    then show ?thesis ..
  next
    case False
    show ?thesis
    proof (cases "ms_value (fst a) < ms_value (fst b)")
      case True
      from "3.IH"(2) [OF False True] obtain ps where
        "assemble ps ko (b # ja) = Some (weave ko (b # ja) t)" ..
      then have "assemble (Only_A # ps) (a # ko) (b # ja) = Some (weave (a # ko) (b # ja) t)"
        using False True by (simp add: solo_ko_def)
      then show ?thesis ..
    next
      case nlt: False
      from "3.IH"(3) [OF False nlt] obtain ps where
        "assemble ps (a # ko) ja = Some (weave (a # ko) ja t)" ..
      then have "assemble (Only_B # ps) (a # ko) (b # ja) = Some (weave (a # ko) (b # ja) t)"
        using False nlt by (simp add: solo_ja_def)
      then show ?thesis ..
    qed
  qed
qed

section \<open>Properties of the timestamp conversion and of the parser\<close>

text \<open>
  C4. For every millisecond value \<open>m\<close> with \<open>0 \<le> m < 24 h\<close>, \<open>time_to_ms\<close> applied to the
  canonical text of \<open>m\<close> (hours padded to any width) returns \<open>m\<close>.
\<close>

theorem time_to_ms_round_trip:
  "0 \<le> m \<Longrightarrow> m < 86400000 \<Longrightarrow> time_to_ms (canonical_format w m) = Inr m"
  by (rule time_to_ms_canonical)

theorem time_to_ms_round_trip_witness:
  "(0::int) \<le> 86399999 \<and> (86399999::int) < 86400000 \<and>
   canonical_format 1 86399999 = ''23:59:59,999'' \<and>
   time_to_ms ''23:59:59,999'' = Inr 86399999"
proof -
  have c: "canonical_format 1 86399999 = ''23:59:59,999''" by code_simp
  show ?thesis
    using time_to_ms_round_trip [of 86399999 1] unfolding c by simp
qed




text \<open>
  C6, as stated, fails: the document is split at each pair of line feeds, so of three line
  feeds in a row (two blank lines) the third stays at the head of the next block, whose
  second line is then no timing line. The same two blocks give two entries when one blank
  line separates them and one entry when two do.
\<close>

theorem parse_srt_blank_lines_counterexample:
  "parse_srt (Inr ''1\<newline>00:00:01,000 --> 00:00:02,000\<newline>hi\<newline>\<newline>2\<newline>00:00:05,000 --> 00:00:06,000\<newline>bye'') =
     Some [(''00:00:01,000'', ''hi''), (''00:00:05,000'', ''bye'')] \<and>
   parse_srt (Inr ''1\<newline>00:00:01,000 --> 00:00:02,000\<newline>hi\<newline>\<newline>\<newline>2\<newline>00:00:05,000 --> 00:00:06,000\<newline>bye'') =
     Some [(''00:00:01,000'', ''hi'')]"
  by code_simp

text \<open>
  C6, amended. A document whose text, once white space is stripped from both ends, is one
  or more blocks joined by exactly one blank line each, where no block holds a blank line
  and no block before the last ends in a line feed, is split into exactly those blocks,
  and its entries are the entries of each block in order. (After stripping, the last
  block cannot end in a line feed either; a run of several blank lines is not one
  separator, as the two documents above show.)
\<close>

theorem parse_srt_single_blank_lines:
  assumes "strip doc = join ''\<newline>\<newline>'' blocks"
    and "blocks \<noteq> []" and "list_all no_blank_line blocks" and "list_all sealed (butlast blocks)"
  shows "split_str ''\<newline>\<newline>'' (strip doc) = blocks \<and>
         parse_srt (Inr doc) = Some (concat (map block_entries blocks))"
  using assms by (simp add: parse_srt_eq split_join_blocks)

theorem parse_srt_single_blank_lines_witness:
  "strip ''\<newline>1\<newline>00:00:01,000 --> 00:00:02,000\<newline>hi\<newline>\<newline>2\<newline>00:00:05,000 --> 00:00:06,000\<newline>bye\<newline>'' =
     join ''\<newline>\<newline>''
       [''1\<newline>00:00:01,000 --> 00:00:02,000\<newline>hi'', ''2\<newline>00:00:05,000 --> 00:00:06,000\<newline>bye''] \<and>
   [''1\<newline>00:00:01,000 --> 00:00:02,000\<newline>hi'', ''2\<newline>00:00:05,000 --> 00:00:06,000\<newline>bye''] \<noteq> [] \<and>
   list_all no_blank_line
     [''1\<newline>00:00:01,000 --> 00:00:02,000\<newline>hi'', ''2\<newline>00:00:05,000 --> 00:00:06,000\<newline>bye''] \<and>
   list_all sealed
     (butlast [''1\<newline>00:00:01,000 --> 00:00:02,000\<newline>hi'', ''2\<newline>00:00:05,000 --> 00:00:06,000\<newline>bye'']) \<and>
   parse_srt (Inr ''\<newline>1\<newline>00:00:01,000 --> 00:00:02,000\<newline>hi\<newline>\<newline>2\<newline>00:00:05,000 --> 00:00:06,000\<newline>bye\<newline>'') =
     Some [(''00:00:01,000'', ''hi''), (''00:00:05,000'', ''bye'')]"
proof -
  let ?bs = "[''1\<newline>00:00:01,000 --> 00:00:02,000\<newline>hi'', ''2\<newline>00:00:05,000 --> 00:00:06,000\<newline>bye'']"
  let ?doc = "''\<newline>1\<newline>00:00:01,000 --> 00:00:02,000\<newline>hi\<newline>\<newline>2\<newline>00:00:05,000 --> 00:00:06,000\<newline>bye\<newline>''"
  have s: "strip ?doc = join ''\<newline>\<newline>'' ?bs"
    by code_simp
  have h: "?bs \<noteq> []" "list_all no_blank_line ?bs" "list_all sealed (butlast ?bs)"
    by code_simp+
  have e: "concat (map block_entries ?bs) = [(''00:00:01,000'', ''hi''), (''00:00:05,000'', ''bye'')]"
    by code_simp
  have "parse_srt (Inr ?doc) = Some (concat (map block_entries ?bs))"
    using parse_srt_single_blank_lines [OF s h] by blast
  then have "parse_srt (Inr ?doc) = Some [(''00:00:01,000'', ''hi''), (''00:00:05,000'', ''bye'')]"
    unfolding e .
  with s h show ?thesis by blast
qed

text \<open>
  C8. Once the document is read, the parser returns a track, never a failure: the entries
  of the well-formed blocks in order, one for each. A block with fewer than three lines,
  or whose second line the pattern does not match, contributes no entry, and the blocks
  before and after it are parsed as they would be without it. When no block is
  well-formed the result is the empty track.
\<close>

theorem parse_srt_skips_malformed:
  "(\<exists>entries. parse_srt (Inr text) = Some entries \<and>
      entries = concat (map block_entries
                  (filter well_formed_block (split_str ''\<newline>\<newline>'' (strip text)))) \<and>
      length entries = length (filter well_formed_block (split_str ''\<newline>\<newline>'' (strip text)))) \<and>
   (\<forall>before bad after.
      split_str ''\<newline>\<newline>'' (strip text) = before @ bad # after \<and> \<not> well_formed_block bad \<longrightarrow>
      block_entries bad = [] \<and>
      parse_srt (Inr text) = Some (parse_blocks before [] @ parse_blocks after [])) \<and>
   ((\<forall>b \<in> set (split_str ''\<newline>\<newline>'' (strip text)). \<not> well_formed_block b) \<longrightarrow>
      parse_srt (Inr text) = Some [])"
proof (intro conjI allI impI)
  show "\<exists>entries. parse_srt (Inr text) = Some entries \<and>
      entries = concat (map block_entries
                  (filter well_formed_block (split_str ''\<newline>\<newline>'' (strip text)))) \<and>
      length entries = length (filter well_formed_block (split_str ''\<newline>\<newline>'' (strip text)))"
    by (simp add: parse_srt_eq concat_block_entries_filter length_concat_block_entries)
next
  fix before bad after
  assume "split_str ''\<newline>\<newline>'' (strip text) = before @ bad # after \<and> \<not> well_formed_block bad"
  then show "block_entries bad = []"
    and "parse_srt (Inr text) = Some (parse_blocks before [] @ parse_blocks after [])"
    by (simp_all add: parse_srt_eq parse_blocks_eq block_entries_malformed)
next
  assume "\<forall>b \<in> set (split_str ''\<newline>\<newline>'' (strip text)). \<not> well_formed_block b"
  then show "parse_srt (Inr text) = Some []"
    by (simp add: parse_srt_eq block_entries_malformed)
qed

theorem parse_srt_skips_malformed_witness:
  "split_str ''\<newline>\<newline>''
     (strip ''1\<newline>00:00:01,000 --> 00:00:02,000\<newline>hi\<newline>\<newline>broken\<newline>\<newline>3\<newline>00:00:05,000 --> 00:00:06,000\<newline>bye\<newline>'') =
     [''1\<newline>00:00:01,000 --> 00:00:02,000\<newline>hi''] @ ''broken'' #
     [''3\<newline>00:00:05,000 --> 00:00:06,000\<newline>bye''] \<and>
   \<not> well_formed_block ''broken'' \<and>
   parse_srt (Inr ''1\<newline>00:00:01,000 --> 00:00:02,000\<newline>hi\<newline>\<newline>broken\<newline>\<newline>3\<newline>00:00:05,000 --> 00:00:06,000\<newline>bye\<newline>'') =
     Some [(''00:00:01,000'', ''hi''), (''00:00:05,000'', ''bye'')] \<and>
   split_str ''\<newline>\<newline>'' (strip ''7\<newline>no timing here\<newline>words'') = [''7\<newline>no timing here\<newline>words''] \<and>
   \<not> well_formed_block ''7\<newline>no timing here\<newline>words'' \<and>
   parse_srt (Inr ''7\<newline>no timing here\<newline>words'') = Some []"
proof -
  let ?text = "''1\<newline>00:00:01,000 --> 00:00:02,000\<newline>hi\<newline>\<newline>broken\<newline>\<newline>3\<newline>00:00:05,000 --> 00:00:06,000\<newline>bye\<newline>''"
  let ?b1 = "''1\<newline>00:00:01,000 --> 00:00:02,000\<newline>hi''"
  let ?b3 = "''3\<newline>00:00:05,000 --> 00:00:06,000\<newline>bye''"
  let ?bad = "''7\<newline>no timing here\<newline>words''"
  have s: "split_str ''\<newline>\<newline>'' (strip ?text) = [?b1] @ ''broken'' # [?b3]"
    by code_simp
  have w: "\<not> well_formed_block ''broken''"
    by code_simp
  have p: "parse_blocks [?b1] [] @ parse_blocks [?b3] [] =
             [(''00:00:01,000'', ''hi''), (''00:00:05,000'', ''bye'')]"
    by code_simp
  have s2: "split_str ''\<newline>\<newline>'' (strip ?bad) = [?bad]"
    by code_simp
  have w2: "\<not> well_formed_block ?bad"
    by code_simp
  have "parse_srt (Inr ?text) = Some (parse_blocks [?b1] [] @ parse_blocks [?b3] [])"
    using parse_srt_skips_malformed [of ?text] s w by blast
  moreover have "parse_srt (Inr ?bad) = Some []"
    using parse_srt_skips_malformed [of ?bad] w2 unfolding s2 by simp
  ultimately show ?thesis
    using s w p s2 w2 by simp
qed

section \<open>Properties of the aligner\<close>

text \<open>
  C7. With an empty track A the result is track B, in order, as solo rows whose text A is
  empty; with an empty track B it is track A, in order, as solo rows whose text B is empty;
  with both empty it is the empty list. No timestamp is converted on these paths, so this
  holds for any entries and any threshold.
\<close>

theorem align_subtitles_empty_track:
  "align_subtitles [] ja_entries threshold = Inr (map (\<lambda>(ts, text). (ts, '''', text)) ja_entries) \<and>
   align_subtitles ko_entries [] threshold = Inr (map (\<lambda>(ts, text). (ts, text, '''')) ko_entries) \<and>
   align_subtitles [] [] threshold = Inr []"
  by (simp add: align_subtitles_def drained_rows solo_ko_def solo_ja_def case_prod_beta
        main_loop.simps [of "[]"] main_loop.simps [of _ "[]"])

text \<open>
  C1, as stated, fails: a merged row carries track A's timestamp, which may lie up to
  \<open>threshold\<close> after the entry of track B it is merged with, and the next row of track B
  can then be earlier. Both tracks below are non-decreasing and the rows are not.
\<close>

theorem align_subtitles_order_counterexample:
  "well_timed [(''0:00:01,000'', ''a'')] \<and>
   well_timed [(''0:00:00,600'', ''b1''), (''0:00:00,700'', ''b2'')] \<and>
   nondecreasing_track [(''0:00:01,000'', ''a'')] \<and>
   nondecreasing_track [(''0:00:00,600'', ''b1''), (''0:00:00,700'', ''b2'')] \<and>
   align_subtitles [(''0:00:01,000'', ''a'')]
     [(''0:00:00,600'', ''b1''), (''0:00:00,700'', ''b2'')] 500 =
     Inr [(''0:00:01,000'', ''a'', ''b1''), (''0:00:00,700'', '''', ''b2'')] \<and>
   \<not> nondecreasing_rows [(''0:00:01,000'', ''a'', ''b1''), (''0:00:00,700'', '''', ''b2'')]"
  by code_simp

text \<open>
  C1, amended. For tracks whose timestamps convert and are non-decreasing within each
  track, the aligner returns rows in which every row's timestamp is at least the timestamp
  of each earlier row minus the threshold (minus nothing when the threshold is negative);
  with a threshold of zero or less the rows are non-decreasing.
\<close>

theorem align_subtitles_order_within_threshold:
  assumes "well_timed ko_entries" and "well_timed ja_entries"
    and "nondecreasing_track ko_entries" and "nondecreasing_track ja_entries"
  shows "\<exists>rows. align_subtitles ko_entries ja_entries threshold = Inr rows \<and>
           nondecreasing_within (max 0 threshold) rows \<and>
           (threshold \<le> 0 \<longrightarrow> nondecreasing_rows rows)"
proof -
  have w: "nondecreasing_within (max 0 threshold) (weave ko_entries ja_entries threshold)"
    using assms(3,4) by (rule weave_within)
  have "nondecreasing_rows (weave ko_entries ja_entries threshold)" if "threshold \<le> 0"
    unfolding nondecreasing_rows_def
    using w [unfolded nondecreasing_within_def]
    by (rule sorted_wrt_mono_rel [rotated]) (use that in auto)
  with w show ?thesis
    by (simp add: align_subtitles_weave [OF assms(1,2)])
qed

theorem align_subtitles_order_within_threshold_witness:
  "well_timed [(''0:00:01,000'', ''a'')] \<and>
   well_timed [(''0:00:00,600'', ''b1''), (''0:00:00,700'', ''b2'')] \<and>
   nondecreasing_track [(''0:00:01,000'', ''a'')] \<and>
   nondecreasing_track [(''0:00:00,600'', ''b1''), (''0:00:00,700'', ''b2'')] \<and>
   nondecreasing_within 500 [(''0:00:01,000'', ''a'', ''b1''), (''0:00:00,700'', '''', ''b2'')] \<and>
   (0::int) \<le> 0 \<and>
   nondecreasing_rows
     [(''0:00:00,600'', '''', ''b1''), (''0:00:00,700'', '''', ''b2''), (''0:00:01,000'', ''a'', '''')]"
proof -
  let ?ko = "[(''0:00:01,000'', ''a'')]"
  let ?ja = "[(''0:00:00,600'', ''b1''), (''0:00:00,700'', ''b2'')]"
  have h: "well_timed ?ko" "well_timed ?ja" "nondecreasing_track ?ko" "nondecreasing_track ?ja"
    by code_simp+
  have r: "align_subtitles ?ko ?ja 500 =
             Inr [(''0:00:01,000'', ''a'', ''b1''), (''0:00:00,700'', '''', ''b2'')]"
    by code_simp
  have r0: "align_subtitles ?ko ?ja 0 =
             Inr [(''0:00:00,600'', '''', ''b1''), (''0:00:00,700'', '''', ''b2''),
                  (''0:00:01,000'', ''a'', '''')]"
    by code_simp
  show ?thesis
    using align_subtitles_order_within_threshold [OF h, of 500]
      align_subtitles_order_within_threshold [OF h, of 0] h
    by (simp add: r r0)
qed

text \<open>
  C2. For every pair of input tracks and every threshold, the aligner returns rows that
  are a complete partition of the two tracks. The tracks are those of the data model: the
  tracks the parser returns, and more generally any tracks whose timestamps convert and
  whose entries have a non-empty text (every track the parser returns is one,
  \<open>parse_srt_sound\<close>). The non-empty text fields of the rows number \<open>|A| + |B|\<close>; the rows
  are assembled by going through both tracks once, in order, each row taking the next
  entry of track A, the next entry of track B, or the next entry of each; the rows with a
  non-empty text A, read in order with their timestamps, are exactly track A, and the
  non-empty texts B, read in order, are exactly the texts of track B.
\<close>

theorem align_subtitles_complete_partition:
  assumes "(\<exists>ko_file ja_file. parse_srt ko_file = Some ko_entries \<and>
                               parse_srt ja_file = Some ja_entries) \<or>
           (well_timed ko_entries \<and> well_timed ja_entries \<and>
            texts_nonempty ko_entries \<and> texts_nonempty ja_entries)"
  shows "\<exists>rows. align_subtitles ko_entries ja_entries threshold = Inr rows \<and>
           contributions rows = length ko_entries + length ja_entries \<and>
           (\<exists>ps. assemble ps ko_entries ja_entries = Some rows) \<and>
           map (\<lambda>r. (fst r, text_a r)) (filter (\<lambda>r. text_a r \<noteq> []) rows) = ko_entries \<and>
           map text_b (filter (\<lambda>r. text_b r \<noteq> []) rows) = map snd ja_entries"
proof -
  have wt: "well_timed ko_entries" "well_timed ja_entries"
    and ne: "texts_nonempty ko_entries" "texts_nonempty ja_entries"
    using assms parse_srt_sound by blast+
  let ?rows = "weave ko_entries ja_entries threshold"
  have a: "map (\<lambda>r. (fst r, text_a r)) (filter (\<lambda>r. text_a r \<noteq> []) ?rows) = ko_entries"
    using ne(1) by (rule weave_text_a)
  have b: "map text_b (filter (\<lambda>r. text_b r \<noteq> []) ?rows) = map snd ja_entries"
    using ne(2) by (rule weave_text_b)
  have "length (filter (\<lambda>r. text_a r \<noteq> []) ?rows) = length ko_entries"
    using arg_cong [OF a, of length] by simp
  moreover have "length (filter (\<lambda>r. text_b r \<noteq> []) ?rows) = length ja_entries"
    using arg_cong [OF b, of length] by simp
  ultimately have c: "contributions ?rows = length ko_entries + length ja_entries"
    by (simp add: contributions_def)
  have "\<exists>ps. assemble ps ko_entries ja_entries = Some ?rows"
    by (rule weave_assemble)
  with a b c show ?thesis
    by (simp add: align_subtitles_weave [OF wt])
qed

theorem align_subtitles_complete_partition_witness:
  "parse_srt (Inr ''1\<newline>0:00:01,000 --> 0:00:02,000\<newline>hi\<newline>\<newline>2\<newline>0:00:09,000 --> 0:00:10,000\<newline>bye\<newline>'') =
     Some [(''0:00:01,000'', ''hi''), (''0:00:09,000'', ''bye'')] \<and>
   parse_srt (Inr ''1\<newline>0:00:01.2 --> 0:00:02.0\<newline>annyeong'') =
     Some [(''0:00:01,200'', ''annyeong'')] \<and>
   align_subtitles [(''0:00:01,000'', ''hi''), (''0:00:09,000'', ''bye'')]
     [(''0:00:01,200'', ''annyeong'')] 500 =
     Inr [(''0:00:01,000'', ''hi'', ''annyeong''), (''0:00:09,000'', ''bye'', '''')] \<and>
   assemble [Both, Only_A] [(''0:00:01,000'', ''hi''), (''0:00:09,000'', ''bye'')]
     [(''0:00:01,200'', ''annyeong'')] =
     Some [(''0:00:01,000'', ''hi'', ''annyeong''), (''0:00:09,000'', ''bye'', '''')] \<and>
   contributions [(''0:00:01,000'', ''hi'', ''annyeong''), (''0:00:09,000'', ''bye'', '''')] =
     length [(''0:00:01,000'', ''hi''), (''0:00:09,000'', ''bye'')] +
     length [(''0:00:01,200'', ''annyeong'')]"
proof -
  let ?ko = "[(''0:00:01,000'', ''hi''), (''0:00:09,000'', ''bye'')]"
  let ?ja = "[(''0:00:01,200'', ''annyeong'')]"
  have a: "parse_srt (Inr ''1\<newline>0:00:01,000 --> 0:00:02,000\<newline>hi\<newline>\<newline>2\<newline>0:00:09,000 --> 0:00:10,000\<newline>bye\<newline>'') = Some ?ko"
    by code_simp
  have b: "parse_srt (Inr ''1\<newline>0:00:01.2 --> 0:00:02.0\<newline>annyeong'') = Some ?ja"
    by code_simp
  have r: "align_subtitles ?ko ?ja 500 =
             Inr [(''0:00:01,000'', ''hi'', ''annyeong''), (''0:00:09,000'', ''bye'', '''')]"
    by code_simp
  have p: "assemble [Both, Only_A] ?ko ?ja =
             Some [(''0:00:01,000'', ''hi'', ''annyeong''), (''0:00:09,000'', ''bye'', '''')]"
    by code_simp
  have "(\<exists>ko_file ja_file. parse_srt ko_file = Some ?ko \<and> parse_srt ja_file = Some ?ja) \<or>
        (well_timed ?ko \<and> well_timed ?ja \<and> texts_nonempty ?ko \<and> texts_nonempty ?ja)"
    using a b by blast
  from align_subtitles_complete_partition [OF this, of 500]
  have "contributions [(''0:00:01,000'', ''hi'', ''annyeong''), (''0:00:09,000'', ''bye'', '''')] =
          length ?ko + length ?ja"
    unfolding r by blast
  with a b r p show ?thesis by blast
qed

text \<open>
  C3. One iteration of the first loop, with both cursors in bounds and both timestamps
  converting to \<open>ko_time\<close> and \<open>ja_time\<close>: the loop continues from the state the
  iteration returns; at a distance of at most \<open>threshold\<close> (so also exactly \<open>threshold\<close>) it
  appends one merged row with track A's timestamp and both texts and advances both
  cursors; at a distance of \<open>threshold + 1\<close> or more it appends one solo row of the earlier
  entry and advances that cursor only. (With a negative threshold two equal times are
  that far apart; the row is then track B's.)
\<close>

theorem loop_body_threshold:
  assumes "ko_ptr st < length ko_entries" and "ja_ptr st < length ja_entries"
    and "time_to_ms (fst (ko_entries ! ko_ptr st)) = Inr ko_time"
    and "time_to_ms (fst (ja_entries ! ja_ptr st)) = Inr ja_time"
  shows "main_loop ko_entries ja_entries threshold st =
           (case loop_body ko_entries ja_entries threshold st of
              Inl e \<Rightarrow> Inl e
            | Inr st' \<Rightarrow> main_loop ko_entries ja_entries threshold st') \<and>
         (\<bar>ko_time - ja_time\<bar> \<le> threshold \<longrightarrow>
            loop_body ko_entries ja_entries threshold st =
              Inr \<lparr>aligned = aligned st @
                     [(fst (ko_entries ! ko_ptr st), snd (ko_entries ! ko_ptr st),
                       snd (ja_entries ! ja_ptr st))],
                   ko_ptr = ko_ptr st + 1, ja_ptr = ja_ptr st + 1\<rparr>) \<and>
         (\<bar>ko_time - ja_time\<bar> \<ge> threshold + 1 \<and> ko_time < ja_time \<longrightarrow>
            loop_body ko_entries ja_entries threshold st =
              Inr \<lparr>aligned = aligned st @
                     [(fst (ko_entries ! ko_ptr st), snd (ko_entries ! ko_ptr st), '''')],
                   ko_ptr = ko_ptr st + 1, ja_ptr = ja_ptr st\<rparr>) \<and>
         (\<bar>ko_time - ja_time\<bar> \<ge> threshold + 1 \<and> ja_time \<le> ko_time \<longrightarrow>
            loop_body ko_entries ja_entries threshold st =
              Inr \<lparr>aligned = aligned st @
                     [(fst (ja_entries ! ja_ptr st), '''', snd (ja_entries ! ja_ptr st))],
                   ko_ptr = ko_ptr st, ja_ptr = ja_ptr st + 1\<rparr>)"
  using assms by (auto simp: loop_body_def main_loop.simps [of ko_entries ja_entries threshold st])

theorem loop_body_threshold_witness:
  "loop_body [(''0:00:01,000'', ''a'')] [(''0:00:01,500'', ''b'')] 500
       \<lparr>aligned = [], ko_ptr = 0, ja_ptr = 0\<rparr> =
     Inr \<lparr>aligned = [(''0:00:01,000'', ''a'', ''b'')], ko_ptr = 1, ja_ptr = 1\<rparr> \<and>
   loop_body [(''0:00:01,000'', ''a'')] [(''0:00:01,501'', ''b'')] 500
       \<lparr>aligned = [], ko_ptr = 0, ja_ptr = 0\<rparr> =
     Inr \<lparr>aligned = [(''0:00:01,000'', ''a'', '''')], ko_ptr = 1, ja_ptr = 0\<rparr> \<and>
   loop_body [(''0:00:01,501'', ''a'')] [(''0:00:01,000'', ''b'')] 500
       \<lparr>aligned = [], ko_ptr = 0, ja_ptr = 0\<rparr> =
     Inr \<lparr>aligned = [(''0:00:01,000'', '''', ''b'')], ko_ptr = 0, ja_ptr = 1\<rparr>"
proof -
  have t0: "time_to_ms ''0:00:01,000'' = Inr 1000" by code_simp
  have t5: "time_to_ms ''0:00:01,500'' = Inr 1500" by code_simp
  have t6: "time_to_ms ''0:00:01,501'' = Inr 1501" by code_simp
  let ?st = "\<lparr>aligned = [], ko_ptr = 0, ja_ptr = 0\<rparr>"
  show ?thesis
    using loop_body_threshold [of ?st "[(''0:00:01,000'', ''a'')]" "[(''0:00:01,500'', ''b'')]"
            1000 1500 500]
          loop_body_threshold [of ?st "[(''0:00:01,000'', ''a'')]" "[(''0:00:01,501'', ''b'')]"
            1000 1501 500]
          loop_body_threshold [of ?st "[(''0:00:01,501'', ''a'')]" "[(''0:00:01,000'', ''b'')]"
            1501 1000 500]
    by (simp add: t0 t5 t6)
qed

text \<open>
  C10. For tracks whose timestamp strings all convert, sorted or not, and any threshold,
  the aligner returns rows (no exception), at most \<open>|A| + |B|\<close> of them; and every
  iteration of the first loop succeeds, advances at least one cursor and appends exactly
  one row. The loops themselves are total functions: their termination is proved where
  they are defined, from the same measure.
\<close>

theorem align_subtitles_returns:
  assumes "well_timed ko_entries" and "well_timed ja_entries"
  shows "(\<exists>rows. align_subtitles ko_entries ja_entries threshold = Inr rows \<and>
                 length rows \<le> length ko_entries + length ja_entries) \<and>
         (\<forall>st. ko_ptr st < length ko_entries \<and> ja_ptr st < length ja_entries \<longrightarrow>
               (\<exists>st'. loop_body ko_entries ja_entries threshold st = Inr st' \<and>
                      ko_ptr st + ja_ptr st < ko_ptr st' + ja_ptr st' \<and>
                      length (aligned st') = Suc (length (aligned st))))"
  using assms
  by (simp add: align_subtitles_weave length_weave loop_body_progress)

theorem align_subtitles_returns_witness:
  "well_timed [(''0:00:09,000'', ''late''), (''0:00:01,000'', ''early'')] \<and>
   well_timed [(''0:00:05,000'', ''mid'')] \<and>
   (\<exists>rows. align_subtitles [(''0:00:09,000'', ''late''), (''0:00:01,000'', ''early'')]
             [(''0:00:05,000'', ''mid'')] 500 = Inr rows \<and>
           length rows \<le> length [(''0:00:09,000'', ''late''), (''0:00:01,000'', ''early'')] +
                          length [(''0:00:05,000'', ''mid'')]) \<and>
   (\<exists>st'. loop_body [(''0:00:09,000'', ''late''), (''0:00:01,000'', ''early'')]
            [(''0:00:05,000'', ''mid'')] 500 \<lparr>aligned = [], ko_ptr = 0, ja_ptr = 0\<rparr> = Inr st' \<and>
          0 < ko_ptr st' + ja_ptr st' \<and> length (aligned st') = Suc 0)"
proof -
  let ?ko = "[(''0:00:09,000'', ''late''), (''0:00:01,000'', ''early'')]"
  let ?ja = "[(''0:00:05,000'', ''mid'')]"
  let ?st = "\<lparr>aligned = [], ko_ptr = 0, ja_ptr = 0\<rparr>"
  have a: "well_timed ?ko"
    by code_simp
  have b: "well_timed ?ja"
    by code_simp
  have "\<exists>st'. loop_body ?ko ?ja 500 ?st = Inr st' \<and>
          ko_ptr ?st + ja_ptr ?st < ko_ptr st' + ja_ptr st' \<and>
          length (aligned st') = Suc (length (aligned ?st))"
    using align_subtitles_returns [OF a b, of 500, THEN conjunct2, rule_format, of ?st] by simp
  then have "\<exists>st'. loop_body ?ko ?ja 500 ?st = Inr st' \<and>
          0 < ko_ptr st' + ja_ptr st' \<and> length (aligned st') = Suc 0"
    by simp
  then show ?thesis
    using align_subtitles_returns [OF a b, of 500, THEN conjunct1] a b by blast
qed

text \<open>
  C9. For two tracks the parser returns and any threshold, the aligner returns rows, and
  no row has both of its text fields empty.
\<close>

theorem parsed_rows_never_blank:
  assumes "parse_srt ko_file = Some ko_entries" and "parse_srt ja_file = Some ja_entries"
  shows "\<exists>rows. align_subtitles ko_entries ja_entries threshold = Inr rows \<and>
           (\<forall>r \<in> set rows. \<not> (text_a r = [] \<and> text_b r = []))"
proof -
  have ko: "well_timed ko_entries" "texts_nonempty ko_entries"
    and ja: "well_timed ja_entries" "texts_nonempty ja_entries"
    using assms parse_srt_sound by blast+
  have "\<forall>r \<in> set (weave ko_entries ja_entries threshold). \<not> (text_a r = [] \<and> text_b r = [])"
    using weave_rows_nonempty [OF ko(2) ja(2)] by blast
  then show ?thesis
    by (simp add: align_subtitles_weave [OF ko(1) ja(1)])
qed

theorem parsed_rows_never_blank_witness:
  "parse_srt (Inr ''1\<newline>00:00:01,000 --> 00:00:02,000\<newline>hi\<newline>\<newline>2\<newline>00:00:09,000 --> 00:00:10,000\<newline>bye\<newline>'') =
     Some [(''00:00:01,000'', ''hi''), (''00:00:09,000'', ''bye'')] \<and>
   parse_srt (Inr ''1\<newline>00:00:01.2 --> 00:00:02.0\<newline>annyeong'') =
     Some [(''00:00:01,200'', ''annyeong'')] \<and>
   align_subtitles [(''00:00:01,000'', ''hi''), (''00:00:09,000'', ''bye'')]
     [(''00:00:01,200'', ''annyeong'')] 500 =
     Inr [(''00:00:01,000'', ''hi'', ''annyeong''), (''00:00:09,000'', ''bye'', '''')] \<and>
   \<not> (text_a (''00:00:01,000'', ''hi'', ''annyeong'') = [] \<and>
      text_b (''00:00:01,000'', ''hi'', ''annyeong'') = []) \<and>
   \<not> (text_a (''00:00:09,000'', ''bye'', '''') = [] \<and> text_b (''00:00:09,000'', ''bye'', '''') = [])"
proof -
  let ?ko = "[(''00:00:01,000'', ''hi''), (''00:00:09,000'', ''bye'')]"
  let ?ja = "[(''00:00:01,200'', ''annyeong'')]"
  have a: "parse_srt (Inr ''1\<newline>00:00:01,000 --> 00:00:02,000\<newline>hi\<newline>\<newline>2\<newline>00:00:09,000 --> 00:00:10,000\<newline>bye\<newline>'') = Some ?ko"
    by code_simp
  have b: "parse_srt (Inr ''1\<newline>00:00:01.2 --> 00:00:02.0\<newline>annyeong'') = Some ?ja"
    by code_simp
  have r: "align_subtitles ?ko ?ja 500 =
             Inr [(''00:00:01,000'', ''hi'', ''annyeong''), (''00:00:09,000'', ''bye'', '''')]"
    by code_simp
  show ?thesis
    using parsed_rows_never_blank [OF a b, of 500] a b by (simp add: r)
qed

end
